theory Spec2Isabelle
  imports Main "HOL-Library.Sublist"
begin

section \<open>Data model of a turn snapshot\<close>

text \<open>
  The request body of \<open>/move\<close> is a JSON object.  Only the fields that the decision
  code of \<open>lambdafunction.py\<close> reads are kept.  A coordinate object
  \<open>{"x": .., "y": ..}\<close> is a pair of (unbounded) Python integers.
\<close>

type_synonym point = "int \<times> int"

record snake =
  snake_id :: string
  snake_body :: "point list"
  snake_head :: point
  snake_health :: int

record board =
  width :: int
  height :: int
  food :: "point list"
  snakes :: "snake list"

record snapshot =
  game_board :: board
  you :: snake

text \<open>The exceptions that the modelled statements can raise.\<close>

datatype py_error = IndexError | ValueError

text \<open>
  The invariants that the specification puts on a snapshot: a positive board, every
  snake with a non-empty body whose first element is its head, every coordinate on
  the board, health between 0 and 100, identifiers unique, and the acting snake an
  entry of the snake list.
\<close>

definition on_board :: "board \<Rightarrow> point \<Rightarrow> bool" where
  "on_board b p \<longleftrightarrow> 0 \<le> fst p \<and> fst p < width b \<and> 0 \<le> snd p \<and> snd p < height b"

definition snake_ok :: "board \<Rightarrow> snake \<Rightarrow> bool" where
  "snake_ok b s \<longleftrightarrow>
     snake_body s \<noteq> [] \<and> snake_head s = hd (snake_body s) \<and>
     list_all (on_board b) (snake_body s) \<and>
     0 \<le> snake_health s \<and> snake_health s \<le> 100"

definition well_formed :: "snapshot \<Rightarrow> bool" where
  "well_formed body \<longleftrightarrow>
     0 < width (game_board body) \<and> 0 < height (game_board body) \<and>
     list_all (on_board (game_board body)) (food (game_board body)) \<and>
     list_all (snake_ok (game_board body)) (snakes (game_board body)) \<and>
     distinct (map snake_id (snakes (game_board body))) \<and>
     List.member (snakes (game_board body)) (you body)"

section \<open>Space Evaluator: \<open>evaluate_move_space\<close>\<close>

definition max_iterations :: nat where
  "max_iterations = 50"

definition directions :: "(int \<times> int) list" where
  "directions = [(0, 1), (0, -1), (1, 0), (-1, 0)]"

text \<open>
  The body of the inner \<open>for dx, dy in ...\<close> loop for one neighbour: the state is
  the visited set and the queue.
\<close>

definition visit ::
  "int \<Rightarrow> int \<Rightarrow> point set \<Rightarrow> point \<Rightarrow> point set \<times> point list \<Rightarrow> point set \<times> point list" where
  "visit board_width board_height obstacles p st =
     (case st of (visited, queue) \<Rightarrow>
        if 0 \<le> fst p \<and> fst p < board_width \<and>
           0 \<le> snd p \<and> snd p < board_height \<and>
           p \<notin> visited \<and> p \<notin> obstacles
        then (insert p visited, queue @ [p])
        else (visited, queue))"

definition expand ::
  "int \<Rightarrow> int \<Rightarrow> point set \<Rightarrow> point \<Rightarrow> point set \<times> point list \<Rightarrow> point set \<times> point list" where
  "expand board_width board_height obstacles c st =
     fold (\<lambda>d. visit board_width board_height obstacles (fst c + fst d, snd c + snd d))
       directions st"

text \<open>
  The \<open>while queue and space < max_iterations\<close> loop.  Every iteration increases
  \<open>space\<close>, which bounds the number of iterations.
\<close>

function flood_loop ::
  "int \<Rightarrow> int \<Rightarrow> point set \<Rightarrow> point set \<Rightarrow> point list \<Rightarrow> nat \<Rightarrow> nat" where
  "flood_loop board_width board_height obstacles visited queue space =
     (if queue \<noteq> [] \<and> space < max_iterations then
        (case expand board_width board_height obstacles (hd queue) (visited, tl queue) of
           (visited', queue') \<Rightarrow>
             flood_loop board_width board_height obstacles visited' queue' (space + 1))
      else space)"
  by pat_completeness auto
termination
  by (relation "measure (\<lambda>(w, h, obs, vis, q, space). max_iterations - space)") auto

declare flood_loop.simps [simp del]

definition evaluate_move_space :: "int \<Rightarrow> int \<Rightarrow> int \<Rightarrow> int \<Rightarrow> point set \<Rightarrow> nat" where
  "evaluate_move_space nx ny board_width board_height obstacles =
     flood_loop board_width board_height obstacles {(nx, ny)} [(nx, ny)] 0"

text \<open>
  The reference notion for the Space Evaluator, in the words of the specification:
  a cell is free when it is on the board and not an obstacle, two cells are
  4-adjacent when their Manhattan distance is one, and the component of a start
  cell is what can be reached from it by steps onto 4-adjacent free cells.  The
  start itself always belongs to it.
\<close>

definition free_cell :: "int \<Rightarrow> int \<Rightarrow> point set \<Rightarrow> point \<Rightarrow> bool" where
  "free_cell w h obs p \<longleftrightarrow> 0 \<le> fst p \<and> fst p < w \<and> 0 \<le> snd p \<and> snd p < h \<and> p \<notin> obs"

definition adjacent4 :: "point \<Rightarrow> point \<Rightarrow> bool" where
  "adjacent4 p q \<longleftrightarrow> \<bar>fst p - fst q\<bar> + \<bar>snd p - snd q\<bar> = 1"

definition free_step :: "int \<Rightarrow> int \<Rightarrow> point set \<Rightarrow> (point \<times> point) set" where
  "free_step w h obs = {(p, q). adjacent4 p q \<and> free_cell w h obs q}"

definition component :: "int \<Rightarrow> int \<Rightarrow> point set \<Rightarrow> point \<Rightarrow> point set" where
  "component w h obs start = (free_step w h obs)\<^sup>* `` {start}"

text \<open>
  The usual component of a free start cell: paths all of whose cells are free.
\<close>

definition free_link :: "int \<Rightarrow> int \<Rightarrow> point set \<Rightarrow> (point \<times> point) set" where
  "free_link w h obs = {(p, q). adjacent4 p q \<and> free_cell w h obs p \<and> free_cell w h obs q}"

text \<open>
  The loop invariant of the flood fill: the visited cells are reachable, the queue
  holds visited cells without repetition, \<open>space\<close> counts the cells already taken
  from the queue, and every neighbour of such a cell has been visited.
\<close>

definition bfs_inv :: "int \<Rightarrow> int \<Rightarrow> point set \<Rightarrow> point \<Rightarrow> point set \<Rightarrow> point list \<Rightarrow> nat \<Rightarrow> bool" where
  "bfs_inv w h obs start vis q space \<longleftrightarrow>
     start \<in> vis \<and> vis \<subseteq> component w h obs start \<and> set q \<subseteq> vis \<and> distinct q \<and>
     space = card (vis - set q) \<and>
     (\<forall>a \<in> vis - set q. free_step w h obs `` {a} \<subseteq> vis)"

section \<open>Safety Filter: \<open>get_safe_moves\<close> and \<open>is_risky_head_collision\<close>\<close>

text \<open>
  The set built by the nested loops of \<open>get_safe_moves\<close>: a segment is added when
  its index is below \<open>len(snake["body"]) - 1\<close>.
\<close>

definition all_snake_bodies :: "snapshot \<Rightarrow> point set" where
  "all_snake_bodies body =
     fold (\<lambda>snake acc.
             fold (\<lambda>(i, segment) acc'.
                     if int i < int (length (snake_body snake)) - 1
                     then insert segment acc' else acc')
               (enumerate 0 (snake_body snake)) acc)
       (snakes (game_board body)) {}"

text \<open>The dictionary \<open>moves\<close>, in insertion order.\<close>

definition moves :: "int \<Rightarrow> int \<Rightarrow> (string \<times> point) list" where
  "moves x y =
     [(''up'', (x, y + 1)), (''down'', (x, y - 1)),
      (''left'', (x - 1, y)), (''right'', (x + 1, y))]"

text \<open>The loop of \<open>is_risky_head_collision\<close>, with its early return.\<close>

fun risky_scan :: "int \<Rightarrow> int \<Rightarrow> string \<Rightarrow> nat \<Rightarrow> snake list \<Rightarrow> bool" where
  "risky_scan nx ny my_id my_length [] = False"
| "risky_scan nx ny my_id my_length (snake # rest) =
     (if snake_id snake = my_id then risky_scan nx ny my_id my_length rest
      else
        let head = snake_head snake;
            snake_length = length (snake_body snake);
            enemy_possible_moves =
              [(fst head + 1, snd head), (fst head - 1, snd head),
               (fst head, snd head + 1), (fst head, snd head - 1)]
        in if (nx, ny) \<in> set enemy_possible_moves \<and> snake_length \<ge> my_length then True
           else risky_scan nx ny my_id my_length rest)"

definition is_risky_head_collision :: "int \<Rightarrow> int \<Rightarrow> snapshot \<Rightarrow> bool" where
  "is_risky_head_collision nx ny body =
     risky_scan nx ny (snake_id (you body)) (length (snake_body (you body)))
       (snakes (game_board body))"

definition get_safe_moves :: "snapshot \<Rightarrow> (string \<times> int \<times> int) list" where
  "get_safe_moves body =
     (let board_width = width (game_board body);
          board_height = height (game_board body);
          head = snake_head (you body);
          all_bodies = all_snake_bodies body
      in fold (\<lambda>(move, (nx, ny)) safe_moves.
                 if \<not> (0 \<le> nx \<and> nx < board_width \<and> 0 \<le> ny \<and> ny < board_height)
                 then safe_moves
                 else if (nx, ny) \<in> all_bodies then safe_moves
                 else if is_risky_head_collision nx ny body then safe_moves
                 else safe_moves @ [(move, nx, ny)])
           (moves (fst head) (snd head)) [])"

section \<open>Target Seeker: \<open>find_nearest_food\<close> and \<open>get_move_toward_target\<close>\<close>

text \<open>
  Both loops start from \<open>float('inf')\<close>, which every integer is below; the running
  minimum is \<open>None\<close> until the first element has been seen.
\<close>

definition below :: "int \<Rightarrow> int option \<Rightarrow> bool" where
  "below d best = (case best of None \<Rightarrow> True | Some b \<Rightarrow> d < b)"

definition find_nearest_food :: "int \<Rightarrow> int \<Rightarrow> point list \<Rightarrow> point option" where
  "find_nearest_food head_x head_y food_list =
     (if food_list = [] then None
      else fst (fold (\<lambda>food (nearest, min_distance).
                        let distance = \<bar>fst food - head_x\<bar> + \<bar>snd food - head_y\<bar>
                        in if below distance min_distance then (Some food, Some distance)
                           else (nearest, min_distance))
                  food_list (None, None)))"

definition get_move_toward_target ::
  "int \<Rightarrow> int \<Rightarrow> int \<Rightarrow> int \<Rightarrow> (string \<times> int \<times> int \<times> nat) list \<Rightarrow> string option" where
  "get_move_toward_target head_x head_y target_x target_y move_options =
     fst (fold (\<lambda>(move, nx, ny, space) (best_move, best_distance).
                  let distance = \<bar>target_x - nx\<bar> + \<bar>target_y - ny\<bar>
                  in if below distance best_distance then (Some move, Some distance)
                     else (best_move, best_distance))
            move_options (None, None))"

section \<open>Move Selector: \<open>choose_best_move\<close>\<close>

text \<open>
  \<open>random.choice\<close> draws an index below the length of its argument; the draw is the
  parameter \<open>r\<close>.  On an empty sequence it raises \<open>IndexError\<close>.
\<close>

definition random_choice :: "nat \<Rightarrow> 'a list \<Rightarrow> py_error + 'a" where
  "random_choice r xs = (if xs = [] then Inl IndexError else Inr (xs ! (r mod length xs)))"

text \<open>
  \<open>max(xs, key=...)\<close> keeps the first element whose key is largest and raises
  \<open>ValueError\<close> on an empty list.
\<close>

fun py_max :: "('a \<Rightarrow> nat) \<Rightarrow> 'a list \<Rightarrow> py_error + 'a" where
  "py_max key [] = Inl ValueError"
| "py_max key (x # xs) = Inr (fold (\<lambda>y best. if key best < key y then y else best) xs x)"

text \<open>The set \<open>obstacles\<close> that \<open>choose_best_move\<close> builds for the space evaluation.\<close>

definition obstacles :: "snapshot \<Rightarrow> point set" where
  "obstacles body =
     fold (\<lambda>snake acc. fold (\<lambda>segment acc'. insert segment acc') (snake_body snake) acc)
       (snakes (game_board body)) {}"

definition move_scores :: "snapshot \<Rightarrow> (string \<times> int \<times> int \<times> nat) list" where
  "move_scores body =
     map (\<lambda>(move, nx, ny).
            (move, nx, ny,
             evaluate_move_space nx ny (width (game_board body)) (height (game_board body))
               (obstacles body)))
       (get_safe_moves body)"

definition min_acceptable_space :: nat where
  "min_acceptable_space = 5"

definition space_of :: "string \<times> int \<times> int \<times> nat \<Rightarrow> nat" where
  "space_of m = snd (snd (snd m))"

definition good_moves :: "snapshot \<Rightarrow> (string \<times> int \<times> int \<times> nat) list" where
  "good_moves body =
     (let good = filter (\<lambda>m. space_of m \<ge> min_acceptable_space) (move_scores body)
      in if good = [] then move_scores body else good)"

text \<open>The food branch: \<open>None\<close> when the branch is not entered or yields nothing.\<close>

definition food_move :: "snapshot \<Rightarrow> string option" where
  "food_move body =
     (let head = snake_head (you body);
          health = snake_health (you body);
          food_list = food (game_board body)
      in if health < 30 \<and> food_list \<noteq> [] then
           (case find_nearest_food (fst head) (snd head) food_list of
              None \<Rightarrow> None
            | Some nearest_food \<Rightarrow>
                (case get_move_toward_target (fst head) (snd head)
                        (fst nearest_food) (snd nearest_food) (good_moves body) of
                   None \<Rightarrow> None
                 | Some m \<Rightarrow> if m \<noteq> [] then Some m else None))
         else None)"

definition choose_best_move :: "nat \<Rightarrow> snapshot \<Rightarrow> py_error + string" where
  "choose_best_move r body =
     (if get_safe_moves body = [] then
        random_choice r [''up'', ''down'', ''left'', ''right'']
      else
        (case food_move body of
           Some m \<Rightarrow> Inr m
         | None \<Rightarrow>
             (case py_max space_of (good_moves body) of
                Inl e \<Rightarrow> Inl e
              | Inr best_move \<Rightarrow> Inr (fst best_move))))"

section \<open>Reference notions of the specification\<close>

text \<open>
  The obstacle set of the Safety Filter as the specification words it: every body
  segment of every snake except each snake's last one.
\<close>

definition obstacle_set :: "snapshot \<Rightarrow> point set" where
  "obstacle_set body = (\<Union>s \<in> set (snakes (game_board body)). set (butlast (snake_body s)))"

text \<open>
  A destination is a risky head-to-head when it is 4-adjacent to the head of another
  snake that is at least as long as the acting one.
\<close>

definition risky_head_to_head :: "snapshot \<Rightarrow> point \<Rightarrow> bool" where
  "risky_head_to_head body p \<longleftrightarrow>
     (\<exists>s \<in> set (snakes (game_board body)).
        snake_id s \<noteq> snake_id (you body) \<and> adjacent4 p (snake_head s) \<and>
        length (snake_body s) \<ge> length (snake_body (you body)))"

text \<open>The four candidate moves, in the fixed order up, down, left, right.\<close>

definition candidates :: "snapshot \<Rightarrow> (string \<times> int \<times> int) list" where
  "candidates body =
     (let x = fst (snake_head (you body)); y = snd (snake_head (you body))
      in [(''up'', x, y + 1), (''down'', x, y - 1), (''left'', x - 1, y), (''right'', x + 1, y)])"

definition survives :: "snapshot \<Rightarrow> string \<times> int \<times> int \<Rightarrow> bool" where
  "survives body c \<longleftrightarrow>
     on_board (game_board body) (snd c) \<and> snd c \<notin> obstacle_set body \<and>
     \<not> risky_head_to_head body (snd c)"

text \<open>The destination of a direction label, read from the dictionary \<open>moves\<close>.\<close>

definition destination :: "snapshot \<Rightarrow> string \<Rightarrow> point option" where
  "destination body d = map_of (moves (fst (snake_head (you body))) (snd (snake_head (you body)))) d"

definition manhattan :: "point \<Rightarrow> point \<Rightarrow> int" where
  "manhattan p q = \<bar>fst p - fst q\<bar> + \<bar>snd p - snd q\<bar>"

text \<open>
  Position \<open>i\<close> holds the first minimum (the first maximum) of \<open>f\<close> over the list:
  no element is smaller (larger), and every earlier one is strictly larger (smaller).
\<close>

definition first_min :: "('a \<Rightarrow> int) \<Rightarrow> 'a list \<Rightarrow> nat \<Rightarrow> bool" where
  "first_min f xs i \<longleftrightarrow>
     i < length xs \<and> (\<forall>j < length xs. f (xs ! i) \<le> f (xs ! j)) \<and> (\<forall>j < i. f (xs ! i) < f (xs ! j))"

definition first_max :: "('a \<Rightarrow> nat) \<Rightarrow> 'a list \<Rightarrow> nat \<Rightarrow> bool" where
  "first_max f xs i \<longleftrightarrow>
     i < length xs \<and> (\<forall>j < length xs. f (xs ! j) \<le> f (xs ! i)) \<and> (\<forall>j < i. f (xs ! j) < f (xs ! i))"

text \<open>The nearest food: the first food item at minimal Manhattan distance from the head.\<close>

definition food_target :: "snapshot \<Rightarrow> point \<Rightarrow> bool" where
  "food_target body t \<longleftrightarrow>
     (\<exists>i. first_min (manhattan (snake_head (you body))) (food (game_board body)) i \<and>
          t = food (game_board body) ! i)"

text \<open>
  The candidates that the Move Selector retains: those with a space score of at
  least 5 when there is one, all scored safe candidates otherwise.
\<close>

definition retained :: "snapshot \<Rightarrow> (string \<times> int \<times> int \<times> nat) list" where
  "retained body =
     (if \<exists>m \<in> set (move_scores body). 5 \<le> space_of m
      then filter (\<lambda>m. 5 \<le> space_of m) (move_scores body)
      else move_scores body)"

definition cell_of :: "string \<times> int \<times> int \<times> nat \<Rightarrow> point" where
  "cell_of m = (fst (snd m), fst (snd (snd m)))"

text \<open>
  Direction \<open>d\<close> belongs to the first retained candidate whose destination is
  nearest to the target \<open>t\<close>.
\<close>

definition seeks :: "snapshot \<Rightarrow> point \<Rightarrow> string \<Rightarrow> bool" where
  "seeks body t d \<longleftrightarrow>
     (\<exists>i. first_min (\<lambda>m. manhattan t (cell_of m)) (retained body) i \<and>
          d = fst (retained body ! i))"

text \<open>
  Direction \<open>d\<close> belongs to the first retained candidate with the largest space score.
\<close>

definition roomiest :: "snapshot \<Rightarrow> string \<Rightarrow> bool" where
  "roomiest body d \<longleftrightarrow>
     (\<exists>i. first_max space_of (retained body) i \<and> d = fst (retained body ! i))"

section \<open>Example snapshots\<close>

text \<open>
  The scenario of the specification: an 11 by 11 board with a single snake of length
  three that has just moved up to (5, 5), health 50, no food.
\<close>

definition lone_snake :: snake where
  "lone_snake = \<lparr>snake_id = ''me'', snake_body = [(5, 5), (5, 4), (5, 3)],
                  snake_head = (5, 5), snake_health = 50\<rparr>"

definition open_board :: snapshot where
  "open_board = \<lparr>game_board = \<lparr>width = 11, height = 11, food = [], snakes = [lone_snake]\<rparr>,
                  you = lone_snake\<rparr>"

text \<open>
  A 3 by 3 board.  The acting snake lies along the bottom row with its head in the
  corner (0, 0); a snake of the same length has its head at (0, 2).
\<close>

definition cornered :: snake where
  "cornered = \<lparr>snake_id = ''me'', snake_body = [(0, 0), (1, 0), (2, 0)],
                snake_head = (0, 0), snake_health = 90\<rparr>"

definition rival :: snake where
  "rival = \<lparr>snake_id = ''foe'', snake_body = [(0, 2), (1, 2), (2, 2)],
             snake_head = (0, 2), snake_health = 90\<rparr>"

definition corner_trap :: snapshot where
  "corner_trap = \<lparr>game_board = \<lparr>width = 3, height = 3, food = [], snakes = [cornered, rival]\<rparr>,
                   you = cornered\<rparr>"

text \<open>
  A 3 by 3 board on which a snake of length five has coiled around its own head:
  both neighbours of the head that are on the board are body segments.
\<close>

definition coil :: "int \<Rightarrow> snake" where
  "coil hp = \<lparr>snake_id = ''me'', snake_body = [(0, 0), (0, 1), (1, 1), (1, 0), (2, 0)],
               snake_head = (0, 0), snake_health = hp\<rparr>"

definition coiled :: snapshot where
  "coiled = \<lparr>game_board = \<lparr>width = 3, height = 3, food = [], snakes = [coil 100]\<rparr>,
              you = coil 100\<rparr>"

definition coiled_hungry :: snapshot where
  "coiled_hungry = \<lparr>game_board = \<lparr>width = 3, height = 3, food = [(2, 2)], snakes = [coil 10]\<rparr>,
                     you = coil 10\<rparr>"

text \<open>
  A 6 by 3 board cut in two by column 2: the acting snake's head (2, 1) and neck
  (2, 2) and the head (2, 0) of a second snake fill that column.  Five cells can be
  reached to the left, seven to the right, and the only food lies to the left.
\<close>

definition forked :: "int \<Rightarrow> snake" where
  "forked hp = \<lparr>snake_id = ''me'', snake_body = [(2, 1), (2, 2), (1, 2)],
                 snake_head = (2, 1), snake_health = hp\<rparr>"

definition blocker :: snake where
  "blocker = \<lparr>snake_id = ''foe'', snake_body = [(2, 0), (3, 0), (4, 0)],
               snake_head = (2, 0), snake_health = 90\<rparr>"

definition fork :: snapshot where
  "fork = \<lparr>game_board = \<lparr>width = 6, height = 3, food = [(0, 1)], snakes = [forked 80, blocker]\<rparr>,
            you = forked 80\<rparr>"

definition hungry_fork :: snapshot where
  "hungry_fork = \<lparr>game_board = \<lparr>width = 6, height = 3, food = [(0, 1)], snakes = [forked 10, blocker]\<rparr>,
                   you = forked 10\<rparr>"

section \<open>The flood fill counts the component, up to its cap\<close>

lemma flood_loop_stop:
  "q = [] \<or> max_iterations \<le> space \<Longrightarrow> flood_loop w h obs vis q space = space"
  by (subst flood_loop.simps) auto

lemma flood_loop_step:
  "q \<noteq> [] \<Longrightarrow> space < max_iterations \<Longrightarrow> expand w h obs (hd q) (vis, tl q) = (vis', q') \<Longrightarrow>
   flood_loop w h obs vis q space = flood_loop w h obs vis' q' (space + 1)"
  by (subst flood_loop.simps) simp

lemma adjacent4_iff:
  "adjacent4 c p \<longleftrightarrow> p \<in> set (map (\<lambda>d. (fst c + fst d, snd c + snd d)) directions)"
proof -
  obtain cx cy where c: "c = (cx, cy)" by (cases c)
  obtain px py where p: "p = (px, py)" by (cases p)
  show ?thesis unfolding c p adjacent4_def directions_def by (simp; linarith)
qed

lemma fold_visit_fst:
  "fst (fold (visit w h obs) ps (vis, q)) = vis \<union> {p \<in> set ps. free_cell w h obs p}"
  by (induction ps arbitrary: vis q) (auto simp: visit_def free_cell_def)

lemma fold_visit_snd:
  "set (snd (fold (visit w h obs) ps (vis, q))) = set q \<union> ({p \<in> set ps. free_cell w h obs p} - vis)"
  by (induction ps arbitrary: vis q) (auto simp: visit_def free_cell_def)

lemma fold_visit_distinct:
  "distinct q \<Longrightarrow> set q \<subseteq> vis \<Longrightarrow> distinct (snd (fold (visit w h obs) ps (vis, q)))"
proof (induction ps arbitrary: vis q)
  case Nil
  then show ?case by simp
next
  case (Cons p ps)
  show ?case
  proof (cases "free_cell w h obs p \<and> p \<notin> vis")
    case True
    then have v: "visit w h obs p (vis, q) = (insert p vis, q @ [p])"
      by (simp add: visit_def free_cell_def)
    from True Cons.prems have "distinct (q @ [p])" "set (q @ [p]) \<subseteq> insert p vis"
      by auto
    from Cons.IH [OF this] show ?thesis by (simp add: v)
  next
    case False
    then have v: "visit w h obs p (vis, q) = (vis, q)"
      by (auto simp: visit_def free_cell_def)
    from Cons.IH [OF Cons.prems] show ?thesis by (simp add: v)
  qed
qed

lemma expand_fold:
  "expand w h obs c st = fold (visit w h obs) (map (\<lambda>d. (fst c + fst d, snd c + snd d)) directions) st"
  by (simp add: expand_def fold_map comp_def)

lemma succ_set:
  "{p \<in> set (map (\<lambda>d. (fst c + fst d, snd c + snd d)) directions). free_cell w h obs p} = free_step w h obs `` {c}"
  using adjacent4_iff [of c] by (auto simp: free_step_def)

lemma expand_fst: "fst (expand w h obs c (vis, q)) = vis \<union> free_step w h obs `` {c}"
  by (simp only: expand_fold fold_visit_fst succ_set)

lemma expand_snd: "set (snd (expand w h obs c (vis, q))) = set q \<union> (free_step w h obs `` {c} - vis)"
  by (simp only: expand_fold fold_visit_snd succ_set)

lemma expand_distinct:
  "distinct q \<Longrightarrow> set q \<subseteq> vis \<Longrightarrow> distinct (snd (expand w h obs c (vis, q)))"
  by (simp only: expand_fold fold_visit_distinct)

lemma component_start: "start \<in> component w h obs start"
  by (simp add: component_def)

lemma component_step:
  "a \<in> component w h obs start \<Longrightarrow> (a, b) \<in> free_step w h obs \<Longrightarrow> b \<in> component w h obs start"
  unfolding component_def by (auto intro: rtrancl_into_rtrancl)

lemma component_least:
  assumes "start \<in> S" and "\<And>a b. a \<in> S \<Longrightarrow> (a, b) \<in> free_step w h obs \<Longrightarrow> b \<in> S"
  shows "component w h obs start \<subseteq> S"
proof
  fix x assume "x \<in> component w h obs start"
  then have "(start, x) \<in> (free_step w h obs)\<^sup>*" by (simp add: component_def)
  then show "x \<in> S" by (induction rule: rtrancl_induct) (auto intro: assms)
qed

lemma component_box:
  "component w h obs start \<subseteq> insert start ({0..<w} \<times> {0..<h})"
  by (rule component_least) (auto simp: free_step_def free_cell_def)

lemma finite_component: "finite (component w h obs start)"
  by (rule finite_subset [OF component_box]) simp

lemma bfs_inv_init: "bfs_inv w h obs start {start} [start] 0"
  by (simp add: bfs_inv_def component_start)

lemma bfs_inv_step:
  assumes inv: "bfs_inv w h obs start vis q space" and q: "q \<noteq> []"
    and e: "expand w h obs (hd q) (vis, tl q) = (vis', q')"
  shows "bfs_inv w h obs start vis' q' (space + 1)"
proof -
  obtain c rest where qc: "q = c # rest" using q by (cases q) auto
  let ?S = "free_step w h obs `` {c}"
  from inv have start: "start \<in> vis" and sub: "vis \<subseteq> component w h obs start"
    and qsub: "set q \<subseteq> vis" and dist: "distinct q"
    and sp: "space = card (vis - set q)"
    and closed: "\<forall>a \<in> vis - set q. free_step w h obs `` {a} \<subseteq> vis"
    by (auto simp: bfs_inv_def)
  from e have vis': "vis' = vis \<union> ?S"
    using expand_fst [of w h obs c vis rest] by (simp add: qc)
  from e have q': "set q' = set rest \<union> (?S - vis)"
    using expand_snd [of w h obs c vis rest] by (simp add: qc)
  from e dist qsub have dq': "distinct q'"
    using expand_distinct [of rest vis w h obs c] by (simp add: qc)
  have cvis: "c \<in> vis" and crest: "c \<notin> set rest" using qsub dist by (auto simp: qc)
  have fin: "finite (vis - set q)"
    by (rule finite_subset [OF _ finite_component [of w h obs start]]) (use sub in auto)
  have S_sub: "?S \<subseteq> component w h obs start"
    using cvis sub by (auto intro: component_step)
  have diff: "vis' - set q' = insert c (vis - set q)"
    unfolding vis' q' using cvis crest by (auto simp: qc)
  have cnot: "c \<notin> vis - set q" by (simp add: qc)
  have card: "space + 1 = card (vis' - set q')"
    unfolding diff using fin cnot sp by simp
  have closed': "\<forall>a \<in> vis' - set q'. free_step w h obs `` {a} \<subseteq> vis'"
    unfolding diff using closed by (auto simp: vis')
  have rsub: "set rest \<subseteq> vis" using qsub by (simp add: qc)
  have a: "start \<in> vis'" using start by (simp add: vis')
  have b: "vis' \<subseteq> component w h obs start" using sub S_sub by (simp add: vis')
  have c: "set q' \<subseteq> vis'" using rsub by (auto simp: vis' q')
  show ?thesis
    unfolding bfs_inv_def using a b c dq' card closed' by blast
qed

lemma bfs_inv_result:
  "bfs_inv w h obs start vis q space \<Longrightarrow> space \<le> max_iterations \<Longrightarrow>
   flood_loop w h obs vis q space = min max_iterations (card (component w h obs start))"
proof (induction w h obs vis q space rule: flood_loop.induct)
  case (1 w h obs vis q space)
  note inv = "1.prems"(1)
  show ?case
  proof (cases "q \<noteq> [] \<and> space < max_iterations")
    case True
    obtain vis' q' where e: "expand w h obs (hd q) (vis, tl q) = (vis', q')"
      by (cases "expand w h obs (hd q) (vis, tl q)")
    have inv': "bfs_inv w h obs start vis' q' (space + 1)"
      using bfs_inv_step [OF inv _ e] True by simp
    have "flood_loop w h obs vis' q' (space + 1) = min max_iterations (card (component w h obs start))"
      using "1.IH" [OF True e [symmetric] inv'] True by simp
    then show ?thesis using flood_loop_step [OF _ _ e] True by simp
  next
    case False
    then have res: "flood_loop w h obs vis q space = space"
      by (intro flood_loop_stop) auto
    from inv have sub: "vis \<subseteq> component w h obs start"
      and sp: "space = card (vis - set q)"
      and closed: "\<forall>a \<in> vis - set q. free_step w h obs `` {a} \<subseteq> vis"
      and start: "start \<in> vis"
      by (auto simp: bfs_inv_def)
    show ?thesis
    proof (cases "q = []")
      case True
      have "component w h obs start \<subseteq> vis"
        by (rule component_least) (use start closed True in auto)
      with sub have "vis = component w h obs start" by auto
      with sp True "1.prems"(2) res show ?thesis by simp
    next
      case qne: False
      with False "1.prems"(2) have full: "space = max_iterations" by simp
      have "card (vis - set q) \<le> card (component w h obs start)"
        by (rule card_mono [OF finite_component]) (use sub in auto)
      with sp full res show ?thesis by simp
    qed
  qed
qed

lemma evaluate_move_space_min:
  "evaluate_move_space nx ny w h obs = min max_iterations (card (component w h obs (nx, ny)))"
  unfolding evaluate_move_space_def
  by (rule bfs_inv_result [OF bfs_inv_init]) simp

lemma component_free_start:
  assumes "free_cell w h obs start"
  shows "component w h obs start = (free_link w h obs)\<^sup>* `` {start}"
proof
  have "(free_link w h obs)\<^sup>* `` {start} \<subseteq> {p. free_cell w h obs p}"
  proof
    fix x assume "x \<in> (free_link w h obs)\<^sup>* `` {start}"
    then have "(start, x) \<in> (free_link w h obs)\<^sup>*" by simp
    then show "x \<in> {p. free_cell w h obs p}"
      by (induction rule: rtrancl_induct) (auto simp: assms free_link_def)
  qed
  then show "component w h obs start \<subseteq> (free_link w h obs)\<^sup>* `` {start}"
    by (intro component_least) (auto simp: free_step_def free_link_def intro: rtrancl_into_rtrancl)
  have "free_link w h obs \<subseteq> free_step w h obs"
    by (auto simp: free_step_def free_link_def)
  then show "(free_link w h obs)\<^sup>* `` {start} \<subseteq> component w h obs start"
    unfolding component_def by (intro Image_mono rtrancl_mono) auto
qed

lemma card_component_le: "card (component w h obs start) \<le> 1 + nat w * nat h"
proof -
  have "card (component w h obs start) \<le> card (insert start ({0..<w} \<times> {0..<h}))"
    by (rule card_mono [OF _ component_box]) simp
  also have "\<dots> \<le> 1 + card ({0..<w} \<times> {0..<h})"
    by (simp add: card_insert_if)
  also have "\<dots> = 1 + nat w * nat h"
    by (simp add: card_cartesian_product)
  finally show ?thesis .
qed

lemma card_component_pos: "1 \<le> card (component w h obs start)"
  using component_start [of start w h obs] finite_component [of w h obs start]
  by (metis One_nat_def Suc_leI card_gt_0_iff empty_iff)

text \<open>
  Claim C3.  For every start point, board size and obstacle set, the Space Evaluator
  returns at most 50, and when the component of the start (the start itself together
  with the cells reached from it over 4-adjacent cells that are on the board and not
  obstacles) has fewer than 50 cells, it returns exactly the size of that component.
  For a free start cell this is the usual component (\<open>component_free_start\<close>).
\<close>

theorem flood_fill_cap:
  "evaluate_move_space nx ny w h obs \<le> 50 \<and>
   (card (component w h obs (nx, ny)) < 50 \<longrightarrow>
      evaluate_move_space nx ny w h obs = card (component w h obs (nx, ny)))"
  by (simp add: evaluate_move_space_min max_iterations_def)

theorem flood_fill_cap_witness:
  "card (component 3 2 {(1, 0), (1, 1)} (0, 0)) < 50 \<and>
   evaluate_move_space 0 0 3 2 {(1, 0), (1, 1)} = card (component 3 2 {(1, 0), (1, 1)} (0, 0)) \<and>
   evaluate_move_space 0 0 3 2 {(1, 0), (1, 1)} = 2"
proof -
  have small: "card (component 3 2 {(1, 0), (1, 1)} (0, 0)) < 50"
    using card_component_le [of 3 2 "{(1, 0), (1, 1)}" "(0, 0)"] by simp
  have run: "evaluate_move_space 0 0 3 2 {(1, 0), (1, 1)} = 2"
    by code_simp
  from flood_fill_cap [of 0 0 3 2 "{(1, 0), (1, 1)}"] small run show ?thesis
    by simp
qed

text \<open>
  Claim C10.  The Space Evaluator returns at least 1 for every start point, board
  size and obstacle set: the start cell is counted without being tested, also when
  it is an obstacle or off the board.
\<close>

theorem start_cell_counted: "1 \<le> evaluate_move_space nx ny w h obs"
  using card_component_pos [of w h obs "(nx, ny)"]
  by (simp add: evaluate_move_space_min max_iterations_def)


section \<open>The Safety Filter keeps exactly the surviving candidates\<close>

lemma tail_free_fold:
  "fold (\<lambda>(i, segment) acc'. if int i < int n - 1 then insert segment acc' else acc')
     (enumerate k xs) acc = acc \<union> set (take (n - 1 - k) xs)"
proof (induction xs arbitrary: k acc)
  case Nil
  then show ?case by simp
next
  case (Cons x xs)
  show ?case
  proof (cases "int k < int n - 1")
    case True
    then obtain m where m: "n - 1 - k = Suc m" by (cases "n - 1 - k") auto
    then have "n - 1 - Suc k = m" by simp
    with True m show ?thesis by (simp add: Cons.IH)
  next
    case False
    then have "n - 1 - k = 0" "n - 1 - Suc k = 0" by auto
    with False show ?thesis by (simp add: Cons.IH)
  qed
qed

lemma snake_fold:
  "fold (\<lambda>(i, segment) acc'. if int i < int (length xs) - 1 then insert segment acc' else acc')
     (enumerate 0 xs) acc = acc \<union> set (butlast xs)"
  by (simp add: tail_free_fold butlast_conv_take)

lemma bodies_fold:
  "fold (\<lambda>snake acc. acc \<union> set (f snake)) ss acc = acc \<union> (\<Union>s \<in> set ss. set (f s))"
  by (induction ss arbitrary: acc) auto

lemma all_snake_bodies_eq: "all_snake_bodies body = obstacle_set body"
  by (simp add: all_snake_bodies_def obstacle_set_def snake_fold bodies_fold)

lemma insert_fold: "fold (\<lambda>segment acc'. insert segment acc') xs acc = acc \<union> set xs"
  by (induction xs arbitrary: acc) auto

lemma obstacles_eq:
  "obstacles body = (\<Union>s \<in> set (snakes (game_board body)). set (snake_body s))"
  by (simp add: obstacles_def insert_fold bodies_fold)

lemma enemy_moves_adjacent:
  "(nx, ny) \<in> set [(hx + 1, hy), (hx - 1, hy), (hx, hy + 1), (hx, hy - 1)] \<longleftrightarrow>
   adjacent4 (nx, ny) (hx, hy)"
  by (simp add: adjacent4_def; linarith)

lemma risky_scan_iff:
  "risky_scan nx ny my_id my_length ss \<longleftrightarrow>
   (\<exists>s \<in> set ss. snake_id s \<noteq> my_id \<and> adjacent4 (nx, ny) (snake_head s) \<and>
      length (snake_body s) \<ge> my_length)"
proof (induction ss)
  case Nil
  then show ?case by simp
next
  case (Cons s ss)
  have adj: "(nx, ny) \<in> set [(fst (snake_head s) + 1, snd (snake_head s)),
        (fst (snake_head s) - 1, snd (snake_head s)),
        (fst (snake_head s), snd (snake_head s) + 1),
        (fst (snake_head s), snd (snake_head s) - 1)] \<longleftrightarrow> adjacent4 (nx, ny) (snake_head s)"
    using enemy_moves_adjacent [of nx ny "fst (snake_head s)" "snd (snake_head s)"] by simp
  show ?case
    unfolding risky_scan.simps Let_def adj Cons.IH by auto
qed

lemma is_risky_iff: "is_risky_head_collision nx ny body \<longleftrightarrow> risky_head_to_head body (nx, ny)"
  by (simp add: is_risky_head_collision_def risky_head_to_head_def risky_scan_iff)


lemma keep_fold: "fold (\<lambda>x acc. if P x then acc @ [x] else acc) xs acc = acc @ filter P xs"
  by (induction xs arbitrary: acc) auto

lemma moves_candidates:
  "moves (fst (snake_head (you body))) (snd (snake_head (you body))) = candidates body"
  by (simp add: moves_def candidates_def Let_def)

lemma safe_step:
  "(\<lambda>(move, (nx, ny)) safe_moves.
       if \<not> (0 \<le> nx \<and> nx < width (game_board body) \<and> 0 \<le> ny \<and> ny < height (game_board body))
       then safe_moves
       else if (nx, ny) \<in> all_snake_bodies body then safe_moves
       else if is_risky_head_collision nx ny body then safe_moves
       else safe_moves @ [(move, nx, ny)]) =
   (\<lambda>x acc. if survives body x then acc @ [x] else acc)"
  by (auto simp: fun_eq_iff survives_def on_board_def all_snake_bodies_eq is_risky_iff)

lemma safe_moves_filter: "get_safe_moves body = filter (survives body) (candidates body)"
  unfolding get_safe_moves_def Let_def safe_step moves_candidates keep_fold by simp


section \<open>The scans for the nearest target and the roomiest candidate\<close>

lemma first_min_scan:
  assumes "xs \<noteq> []"
  shows "\<exists>i. first_min f xs i \<and>
           fold (\<lambda>x (b, d). if below (f x) d then (Some (g x), Some (f x)) else (b, d)) xs (None, None)
             = (Some (g (xs ! i)), Some (f (xs ! i)))"
  using assms
proof (induction xs rule: rev_induct)
  case Nil
  then show ?case by simp
next
  case (snoc x xs)
  show ?case
  proof (cases "xs = []")
    case True
    then have "first_min f (xs @ [x]) 0" by (simp add: first_min_def)
    moreover have "fold (\<lambda>x (b, d). if below (f x) d then (Some (g x), Some (f x)) else (b, d))
        (xs @ [x]) (None, None) = (Some (g ((xs @ [x]) ! 0)), Some (f ((xs @ [x]) ! 0)))"
      using True by (simp add: below_def)
    ultimately show ?thesis by blast
  next
    case False
    from snoc.IH [OF False] obtain i where i: "first_min f xs i"
      and run: "fold (\<lambda>x (b, d). if below (f x) d then (Some (g x), Some (f x)) else (b, d)) xs (None, None)
             = (Some (g (xs ! i)), Some (f (xs ! i)))"
      by blast
    from i have il: "i < length xs" by (simp add: first_min_def)
    show ?thesis
    proof (cases "f x < f (xs ! i)")
      case True
      have "first_min f (xs @ [x]) (length xs)"
        using i True by (auto simp: first_min_def nth_append less_Suc_eq)
      moreover have "fold (\<lambda>x (b, d). if below (f x) d then (Some (g x), Some (f x)) else (b, d))
          (xs @ [x]) (None, None) = (Some (g ((xs @ [x]) ! length xs)), Some (f ((xs @ [x]) ! length xs)))"
        using True by (simp only: fold_append comp_apply run) (simp add: below_def)
      ultimately show ?thesis by blast
    next
      case nless: False
      have "first_min f (xs @ [x]) i"
        using i nless by (auto simp: first_min_def nth_append less_Suc_eq)
      moreover have "fold (\<lambda>x (b, d). if below (f x) d then (Some (g x), Some (f x)) else (b, d))
          (xs @ [x]) (None, None) = (Some (g ((xs @ [x]) ! i)), Some (f ((xs @ [x]) ! i)))"
        using nless il by (simp only: fold_append comp_apply run) (simp add: below_def nth_append)
      ultimately show ?thesis by blast
    qed
  qed
qed

lemma nearest_food_first_min:
  assumes "food_list \<noteq> []"
  shows "\<exists>i. first_min (manhattan (hx, hy)) food_list i \<and>
           find_nearest_food hx hy food_list = Some (food_list ! i)"
proof -
  have f: "(\<lambda>food. \<bar>fst food - hx\<bar> + \<bar>snd food - hy\<bar>) = manhattan (hx, hy)"
    by (auto simp: fun_eq_iff manhattan_def)
  from first_min_scan [OF assms, of "\<lambda>food. \<bar>fst food - hx\<bar> + \<bar>snd food - hy\<bar>" "\<lambda>food. food"]
  show ?thesis
    unfolding f by (auto simp: find_nearest_food_def assms Let_def f)
qed

lemma toward_step:
  "(\<lambda>(move, nx, ny, space) (best_move, best_distance).
       let distance = \<bar>target_x - nx\<bar> + \<bar>target_y - ny\<bar>
       in if below distance best_distance then (Some move, Some distance)
          else (best_move, best_distance)) =
   (\<lambda>x (b, d). if below (manhattan (target_x, target_y) (cell_of x)) d
       then (Some (fst x), Some (manhattan (target_x, target_y) (cell_of x))) else (b, d))"
  by (auto simp: fun_eq_iff manhattan_def cell_of_def Let_def)

lemma toward_first_min:
  assumes "opts \<noteq> []"
  shows "\<exists>i. first_min (\<lambda>m. manhattan (tx, ty) (cell_of m)) opts i \<and>
           get_move_toward_target hx hy tx ty opts = Some (fst (opts ! i))"
  using first_min_scan [OF assms, of "\<lambda>m. manhattan (tx, ty) (cell_of m)" fst]
  unfolding get_move_toward_target_def toward_step by auto

lemma first_max_scan:
  "\<exists>i. first_max key (x # ys) i \<and>
       fold (\<lambda>y best. if key best < key y then y else best) ys x = (x # ys) ! i"
proof (induction ys rule: rev_induct)
  case Nil
  then show ?case by (simp add: first_max_def)
next
  case (snoc y ys)
  then obtain i where i: "first_max key (x # ys) i"
    and run: "fold (\<lambda>y best. if key best < key y then y else best) ys x = (x # ys) ! i"
    by blast
  from i have il: "i < length (x # ys)" by (simp add: first_max_def)
  have app: "x # ys @ [y] = (x # ys) @ [y]" by simp
  show ?case
  proof (cases "key ((x # ys) ! i) < key y")
    case True
    have "first_max key ((x # ys) @ [y]) (length (x # ys))"
      using i True unfolding first_max_def nth_append length_append
      by (auto simp: less_Suc_eq)
    moreover have "fold (\<lambda>y best. if key best < key y then y else best) (ys @ [y]) x
        = ((x # ys) @ [y]) ! (length (x # ys))"
      using True by (simp add: run)
    ultimately show ?thesis unfolding app by blast
  next
    case False
    have "first_max key ((x # ys) @ [y]) i"
      using i False unfolding first_max_def nth_append length_append
      by (auto simp: less_Suc_eq)
    moreover have "fold (\<lambda>y best. if key best < key y then y else best) (ys @ [y]) x
        = ((x # ys) @ [y]) ! i"
      using False il unfolding nth_append by (simp add: run)
    ultimately show ?thesis unfolding app by blast
  qed
qed

lemma py_max_first_max:
  assumes "xs \<noteq> []"
  shows "\<exists>i. first_max key xs i \<and> py_max key xs = Inr (xs ! i)"
proof -
  from assms obtain x ys where xs: "xs = x # ys" by (cases xs) auto
  from first_max_scan [of key x ys] show ?thesis by (simp add: xs)
qed


section \<open>The two branches of the Move Selector\<close>

lemma good_moves_retained: "good_moves body = retained body"
  by (auto simp: good_moves_def retained_def min_acceptable_space_def Let_def filter_empty_conv)

lemma retained_nonempty: "get_safe_moves body \<noteq> [] \<Longrightarrow> retained body \<noteq> []"
  by (auto simp: retained_def move_scores_def filter_empty_conv)

lemma retained_scored: "m \<in> set (retained body) \<Longrightarrow> m \<in> set (move_scores body)"
  by (auto simp: retained_def split: if_splits)

lemma scored_safe: "m \<in> set (move_scores body) \<Longrightarrow> (fst m, cell_of m) \<in> set (get_safe_moves body)"
  by (auto simp: move_scores_def cell_of_def)

lemma safe_candidate:
  "c \<in> set (get_safe_moves body) \<Longrightarrow> c \<in> set (candidates body) \<and> survives body c"
  by (simp add: safe_moves_filter)

lemma candidate_label:
  "c \<in> set (candidates body) \<Longrightarrow>
     fst c \<in> set [''up'', ''down'', ''left'', ''right''] \<and> destination body (fst c) = Some (snd c)"
  by (auto simp: candidates_def destination_def moves_def Let_def)

lemma retained_facts:
  assumes "m \<in> set (retained body)"
  shows "fst m \<in> set [''up'', ''down'', ''left'', ''right'']"
    and "destination body (fst m) = Some (cell_of m)"
    and "survives body (fst m, cell_of m)"
proof -
  from assms have "(fst m, cell_of m) \<in> set (get_safe_moves body)"
    by (intro scored_safe retained_scored)
  then have c: "(fst m, cell_of m) \<in> set (candidates body)" and s: "survives body (fst m, cell_of m)"
    using safe_candidate by blast+
  from candidate_label [OF c] show "fst m \<in> set [''up'', ''down'', ''left'', ''right'']"
    and "destination body (fst m) = Some (cell_of m)" by simp_all
  from s show "survives body (fst m, cell_of m)" .
qed

lemma food_branch:
  assumes "snake_health (you body) < 30" and "food (game_board body) \<noteq> []"
    and "get_safe_moves body \<noteq> []"
  shows "\<exists>t d. food_target body t \<and> seeks body t d \<and> food_move body = Some d"
proof -
  let ?head = "snake_head (you body)"
  from nearest_food_first_min [OF assms(2), of "fst ?head" "snd ?head"]
  obtain i where i: "first_min (manhattan ?head) (food (game_board body)) i"
    and near: "find_nearest_food (fst ?head) (snd ?head) (food (game_board body))
                 = Some (food (game_board body) ! i)"
    by auto
  let ?t = "food (game_board body) ! i"
  have ne: "retained body \<noteq> []" by (rule retained_nonempty [OF assms(3)])
  from toward_first_min [OF ne, of "fst ?t" "snd ?t" "fst ?head" "snd ?head"]
  obtain k where k: "first_min (\<lambda>m. manhattan ?t (cell_of m)) (retained body) k"
    and tow: "get_move_toward_target (fst ?head) (snd ?head) (fst ?t) (snd ?t) (retained body)
                = Some (fst (retained body ! k))"
    by auto
  from k have "retained body ! k \<in> set (retained body)" by (simp add: first_min_def)
  from retained_facts(1) [OF this] have "fst (retained body ! k) \<noteq> []" by auto
  then have "food_move body = Some (fst (retained body ! k))"
    using assms(1,2) near tow by (simp add: food_move_def good_moves_retained Let_def)
  moreover have "food_target body ?t" using i by (auto simp: food_target_def)
  moreover have "seeks body ?t (fst (retained body ! k))" using k by (auto simp: seeks_def)
  ultimately show ?thesis by blast
qed

lemma no_food_branch:
  "\<not> (snake_health (you body) < 30 \<and> food (game_board body) \<noteq> []) \<Longrightarrow> food_move body = None"
  by (auto simp: food_move_def Let_def)

lemma space_branch:
  assumes "get_safe_moves body \<noteq> []"
  shows "\<exists>i. first_max space_of (retained body) i \<and>
           py_max space_of (good_moves body) = Inr (retained body ! i)"
  using py_max_first_max [OF retained_nonempty [OF assms], of space_of]
  by (simp add: good_moves_retained)

lemma food_move_retained:
  assumes "food_move body = Some d"
  shows "\<exists>m \<in> set (retained body). d = fst m"
proof -
  from assms obtain t where
    tow: "get_move_toward_target (fst (snake_head (you body))) (snd (snake_head (you body)))
            (fst t) (snd t) (retained body) = Some d"
    by (auto simp: food_move_def good_moves_retained Let_def split: if_splits option.splits)
  have ne: "retained body \<noteq> []"
  proof
    assume "retained body = []"
    with tow show False by (simp add: get_move_toward_target_def)
  qed
  from toward_first_min [OF ne, of "fst t" "snd t" "fst (snake_head (you body))" "snd (snake_head (you body))"] tow
  obtain k where "first_min (\<lambda>m. manhattan t (cell_of m)) (retained body) k" "d = fst (retained body ! k)"
    by auto
  then show ?thesis by (auto simp: first_min_def)
qed

lemma main_path:
  assumes "get_safe_moves body \<noteq> []"
  shows "\<exists>m \<in> set (retained body). choose_best_move r body = Inr (fst m)"
proof (cases "food_move body")
  case None
  from space_branch [OF assms] obtain i where "first_max space_of (retained body) i"
    and "py_max space_of (good_moves body) = Inr (retained body ! i)" by blast
  then show ?thesis using assms None by (auto simp: choose_best_move_def first_max_def)
next
  case (Some d)
  from food_move_retained [OF Some] show ?thesis
    using assms Some by (auto simp: choose_best_move_def)
qed


lemma retained_order: "subseq (map fst (retained body)) [''up'', ''down'', ''left'', ''right'']"
proof -
  have "subseq (map fst (retained body)) (map fst (move_scores body))"
    by (rule subseq_map) (simp add: retained_def)
  also have "map fst (move_scores body) = map fst (get_safe_moves body)"
    by (simp add: move_scores_def comp_def case_prod_beta)
  also have "subseq (map fst (get_safe_moves body)) (map fst (candidates body))"
    by (rule subseq_map) (simp add: safe_moves_filter)
  also have "map fst (candidates body) = [''up'', ''down'', ''left'', ''right'']"
    by (simp add: candidates_def Let_def)
  finally show ?thesis .
qed

lemma set_butlast_last: "xs \<noteq> [] \<Longrightarrow> set xs = insert (last xs) (set (butlast xs))"
  by (metis append_butlast_last_id list.simps(15) rotate1.simps(2) set_rotate1)

lemma obstacles_tails:
  "obstacles body = obstacle_set body \<union>
     {last (snake_body s) | s. s \<in> set (snakes (game_board body)) \<and> snake_body s \<noteq> []}"
proof -
  have "set (snake_body s) = set (butlast (snake_body s)) \<union>
          (if snake_body s \<noteq> [] then {last (snake_body s)} else {})" for s :: snake
    using set_butlast_last [of "snake_body s"] by auto
  then show ?thesis
    unfolding obstacles_eq obstacle_set_def by (auto split: if_splits)
qed


section \<open>The claims about the Safety Filter and the Move Selector\<close>

text \<open>
  Claim C5.  The Safety Filter returns exactly those of the four candidate moves
  (up, down, left, right, in this order) whose destination is on the board, is not
  in the obstacle set (all body segments of all snakes but each snake's last one)
  and is not 4-adjacent to the head of another snake whose body is at least as long
  as the acting snake's.
\<close>

theorem safety_filter_exact: "get_safe_moves body = filter (survives body) (candidates body)"
  by (rule safe_moves_filter)

text \<open>
  Claim C2, as stated: the obstacle set handed to the Space Evaluator equals the one
  of the Safety Filter.  It does not: \<open>choose_best_move\<close> adds every segment, the
  tail too.  On the open board the tail (5, 3) is an obstacle of the flood fill and
  not one of the Safety Filter.
\<close>

theorem space_obstacles_counterexample:
  "well_formed open_board \<and> (5, 3) \<in> obstacles open_board \<and>
   (5, 3) \<notin> all_snake_bodies open_board \<and> (5, 3) \<notin> obstacle_set open_board \<and>
   obstacles open_board \<noteq> all_snake_bodies open_board"
proof -
  have a: "well_formed open_board" by code_simp
  have b: "(5, 3) \<in> obstacles open_board" by code_simp
  have c: "(5, 3) \<notin> all_snake_bodies open_board" by code_simp
  have d: "(5, 3) \<notin> obstacle_set open_board" by code_simp
  from a b c d show ?thesis by auto
qed

text \<open>
  Claim C2, amended.  The obstacle set handed to the Space Evaluator is the union,
  over all snakes, of every body segment, each snake's last one included: it is the
  Safety Filter's obstacle set together with the tail cells.
\<close>

theorem space_obstacles_all_segments:
  "move_scores body =
     map (\<lambda>(move, nx, ny).
            (move, nx, ny,
             evaluate_move_space nx ny (width (game_board body)) (height (game_board body))
               (\<Union>s \<in> set (snakes (game_board body)). set (snake_body s))))
       (get_safe_moves body) \<and>
   obstacles body = obstacle_set body \<union>
     {last (snake_body s) | s. s \<in> set (snakes (game_board body)) \<and> snake_body s \<noteq> []}"
  using obstacles_tails [of body] by (simp add: move_scores_def obstacles_eq)

text \<open>
  Claim C4.  For every snapshot and every random draw the Move Selector returns one
  of the four direction labels; no branch raises.
\<close>

theorem always_answers:
  "\<exists>d \<in> set [''up'', ''down'', ''left'', ''right'']. choose_best_move r body = Inr d"
proof (cases "get_safe_moves body = []")
  case True
  have "r mod 4 < 4" by simp
  then have "r mod 4 = 0 \<or> r mod 4 = 1 \<or> r mod 4 = 2 \<or> r mod 4 = 3" by linarith
  then show ?thesis
    using True by (auto simp: choose_best_move_def random_choice_def)
next
  case False
  from main_path [OF False, of r] obtain m where m: "m \<in> set (retained body)"
    and res: "choose_best_move r body = Inr (fst m)" by blast
  from retained_facts(1) [OF m] res show ?thesis by simp
qed

text \<open>
  Claim C6.  When the Safety Filter returns at least one candidate, the direction
  does not depend on the random draw: two invocations on the snapshot agree.
\<close>

theorem main_path_deterministic:
  "get_safe_moves body \<noteq> [] \<Longrightarrow> choose_best_move r1 body = choose_best_move r2 body"
  by (simp add: choose_best_move_def)

theorem main_path_deterministic_witness:
  "get_safe_moves open_board \<noteq> [] \<and> choose_best_move 0 open_board = choose_best_move 3 open_board \<and>
   choose_best_move 3 open_board = Inr ''up''"
proof -
  have safe: "get_safe_moves open_board \<noteq> []" by code_simp
  have run: "choose_best_move 3 open_board = Inr ''up''" by code_simp
  from main_path_deterministic [OF safe, of 0 3] safe run show ?thesis by simp
qed

text \<open>
  Claim C8.  When there is at least one safe move, the destination of the returned
  direction lies on the board.
\<close>

theorem chosen_on_board:
  "get_safe_moves body \<noteq> [] \<Longrightarrow>
   \<exists>d p. choose_best_move r body = Inr d \<and> destination body d = Some p \<and>
         on_board (game_board body) p"
proof -
  assume "get_safe_moves body \<noteq> []"
  from main_path [OF this, of r] obtain m where m: "m \<in> set (retained body)"
    and res: "choose_best_move r body = Inr (fst m)" by blast
  from retained_facts(2,3) [OF m] have "destination body (fst m) = Some (cell_of m)"
    and "on_board (game_board body) (cell_of m)" by (simp_all add: survives_def)
  with res show ?thesis by blast
qed

theorem chosen_on_board_witness:
  "get_safe_moves fork \<noteq> [] \<and> choose_best_move 0 fork = Inr ''right'' \<and>
   destination fork ''right'' = Some (3, 1) \<and> on_board (game_board fork) (3, 1)"
proof -
  have safe: "get_safe_moves fork \<noteq> []" by code_simp
  have run: "choose_best_move 0 fork = Inr ''right''" by code_simp
  have dest: "destination fork ''right'' = Some (3, 1)" by code_simp
  from chosen_on_board [OF safe, of 0] safe run dest show ?thesis by auto
qed

text \<open>
  Claim C1, as stated: whenever one of the four destinations avoids the obstacle
  set, the returned destination is not in it.  In the corner trap \<open>up\<close> leads to the
  free cell (0, 1), which the Safety Filter discards as a risky head-to-head; no
  candidate is left, the fallback draws at random, and the draw \<open>right\<close> leads onto
  the snake's own body.
\<close>

theorem no_collision_counterexample:
  "well_formed corner_trap \<and>
   destination corner_trap ''up'' = Some (0, 1) \<and> (0, 1) \<notin> obstacle_set corner_trap \<and>
   choose_best_move 3 corner_trap = Inr ''right'' \<and>
   destination corner_trap ''right'' = Some (1, 0) \<and> (1, 0) \<in> obstacle_set corner_trap"
proof -
  have a: "well_formed corner_trap" by code_simp
  have b: "destination corner_trap ''up'' = Some (0, 1)" by code_simp
  have c: "(0, 1) \<notin> obstacle_set corner_trap" by code_simp
  have d: "choose_best_move 3 corner_trap = Inr ''right''" by code_simp
  have e: "destination corner_trap ''right'' = Some (1, 0)" by code_simp
  have f: "(1, 0) \<in> obstacle_set corner_trap" by code_simp
  from a b c d e f show ?thesis by simp
qed

text \<open>
  Claim C1, amended.  Whenever the Safety Filter returns at least one candidate,
  the destination of the returned direction is not in the obstacle set (the body
  segments of all snakes without each snake's tail).
\<close>

theorem no_collision_when_safe:
  "get_safe_moves body \<noteq> [] \<Longrightarrow>
   \<exists>d p. choose_best_move r body = Inr d \<and> destination body d = Some p \<and>
         p \<notin> obstacle_set body"
proof -
  assume "get_safe_moves body \<noteq> []"
  from main_path [OF this, of r] obtain m where m: "m \<in> set (retained body)"
    and res: "choose_best_move r body = Inr (fst m)" by blast
  from retained_facts(2,3) [OF m] have "destination body (fst m) = Some (cell_of m)"
    and "cell_of m \<notin> obstacle_set body" by (simp_all add: survives_def)
  with res show ?thesis by blast
qed

theorem no_collision_when_safe_witness:
  "get_safe_moves open_board \<noteq> [] \<and> choose_best_move 0 open_board = Inr ''up'' \<and>
   destination open_board ''up'' = Some (5, 6) \<and> (5, 6) \<notin> obstacle_set open_board"
proof -
  have safe: "get_safe_moves open_board \<noteq> []" by code_simp
  have run: "choose_best_move 0 open_board = Inr ''up''" by code_simp
  have dest: "destination open_board ''up'' = Some (5, 6)" by code_simp
  from no_collision_when_safe [OF safe, of 0] safe run dest show ?thesis by auto
qed

text \<open>
  Claim C7, as stated: on every snapshot with health below 30 and some food the
  Move Selector returns the candidate nearest to the nearest food.  The coiled
  hungry snake has no safe move, so there is no candidate to return: the answer is
  the random draw, \<open>up\<close> for one draw and \<open>right\<close> for another.
\<close>

theorem food_priority_counterexample:
  "well_formed coiled_hungry \<and> snake_health (you coiled_hungry) < 30 \<and>
   food (game_board coiled_hungry) \<noteq> [] \<and>
   choose_best_move 0 coiled_hungry = Inr ''up'' \<and>
   choose_best_move 3 coiled_hungry = Inr ''right'' \<and>
   \<not> (\<exists>t d. food_target coiled_hungry t \<and> seeks coiled_hungry t d \<and>
          choose_best_move 3 coiled_hungry = Inr d)"
proof -
  have a: "well_formed coiled_hungry" by code_simp
  have b: "snake_health (you coiled_hungry) < 30" by code_simp
  have c: "food (game_board coiled_hungry) \<noteq> []" by code_simp
  have d: "choose_best_move 0 coiled_hungry = Inr ''up''" by code_simp
  have e: "choose_best_move 3 coiled_hungry = Inr ''right''" by code_simp
  have "retained coiled_hungry = []" by code_simp
  then have f: "\<not> seeks coiled_hungry t d" for t d
    by (simp add: seeks_def first_min_def)
  from a b c d e f show ?thesis by simp
qed

text \<open>
  Claim C7, amended.  On every snapshot with health below 30, a non-empty food list
  and at least one safe move, the Move Selector returns the direction of the first
  retained candidate whose destination has the least Manhattan distance to the
  nearest food (the first food item at least Manhattan distance from the head),
  whatever the space scores of the retained candidates are.
\<close>

theorem food_priority:
  "snake_health (you body) < 30 \<Longrightarrow> food (game_board body) \<noteq> [] \<Longrightarrow>
   get_safe_moves body \<noteq> [] \<Longrightarrow>
   \<exists>t d. food_target body t \<and> seeks body t d \<and> choose_best_move r body = Inr d"
proof -
  assume h: "snake_health (you body) < 30" and f: "food (game_board body) \<noteq> []"
    and s: "get_safe_moves body \<noteq> []"
  from food_branch [OF h f s] obtain t d where t: "food_target body t" "seeks body t d"
    and fm: "food_move body = Some d" by blast
  have "choose_best_move r body = Inr d"
    using s fm by (simp add: choose_best_move_def)
  with t show ?thesis by blast
qed

theorem food_priority_witness:
  "snake_health (you hungry_fork) < 30 \<and> food (game_board hungry_fork) \<noteq> [] \<and>
   get_safe_moves hungry_fork \<noteq> [] \<and>
   retained hungry_fork = [(''left'', 1, 1, 5), (''right'', 3, 1, 7)] \<and>
   (\<exists>t. food_target hungry_fork t \<and> seeks hungry_fork t ''left'') \<and>
   choose_best_move 0 hungry_fork = Inr ''left''"
proof -
  have h: "snake_health (you hungry_fork) < 30" by code_simp
  have f: "food (game_board hungry_fork) \<noteq> []" by code_simp
  have s: "get_safe_moves hungry_fork \<noteq> []" by code_simp
  have ret: "retained hungry_fork = [(''left'', 1, 1, 5), (''right'', 3, 1, 7)]" by code_simp
  have run: "choose_best_move 0 hungry_fork = Inr ''left''" by code_simp
  from food_priority [OF h f s, of 0] h f s ret run show ?thesis by auto
qed

text \<open>
  Claim C9, as stated: whenever the food-seeking branch is not taken, the Move
  Selector returns the first retained candidate of largest space score.  The coiled
  snake is healthy and has no safe move: nothing is retained, and the answer is the
  random draw.
\<close>

theorem space_priority_counterexample:
  "well_formed coiled \<and> 30 \<le> snake_health (you coiled) \<and> food_move coiled = None \<and>
   choose_best_move 0 coiled = Inr ''up'' \<and> choose_best_move 3 coiled = Inr ''right'' \<and>
   \<not> (\<exists>d. roomiest coiled d \<and> choose_best_move 3 coiled = Inr d)"
proof -
  have a: "well_formed coiled" by code_simp
  have b: "30 \<le> snake_health (you coiled)" by code_simp
  have c: "food_move coiled = None" by code_simp
  have d: "choose_best_move 0 coiled = Inr ''up''" by code_simp
  have e: "choose_best_move 3 coiled = Inr ''right''" by code_simp
  have "retained coiled = []" by code_simp
  then have f: "\<not> roomiest coiled d" for d
    by (simp add: roomiest_def first_max_def)
  from a b c d e f show ?thesis by simp
qed

text \<open>
  Claim C9, amended.  Whenever there is at least one safe move and the food-seeking
  branch is not taken (health at least 30, or no food), the Move Selector returns
  the direction of the first candidate of largest space score among the retained
  candidates: those with a score of at least 5 if there is one, all scored safe
  candidates otherwise, listed in the order up, down, left, right.
\<close>

theorem space_priority:
  "get_safe_moves body \<noteq> [] \<Longrightarrow>
   \<not> (snake_health (you body) < 30 \<and> food (game_board body) \<noteq> []) \<Longrightarrow>
   (\<exists>d. roomiest body d \<and> choose_best_move r body = Inr d) \<and>
   subseq (map fst (retained body)) [''up'', ''down'', ''left'', ''right'']"
proof -
  assume s: "get_safe_moves body \<noteq> []"
    and n: "\<not> (snake_health (you body) < 30 \<and> food (game_board body) \<noteq> [])"
  from space_branch [OF s] obtain i where i: "first_max space_of (retained body) i"
    and best: "py_max space_of (good_moves body) = Inr (retained body ! i)" by blast
  have "choose_best_move r body = Inr (fst (retained body ! i))"
    using s no_food_branch [OF n] best by (simp add: choose_best_move_def)
  with i have "\<exists>d. roomiest body d \<and> choose_best_move r body = Inr d"
    by (auto simp: roomiest_def)
  then show ?thesis using retained_order [of body] by simp
qed

theorem space_priority_witness:
  "get_safe_moves fork \<noteq> [] \<and> 30 \<le> snake_health (you fork) \<and>
   retained fork = [(''left'', 1, 1, 5), (''right'', 3, 1, 7)] \<and>
   roomiest fork ''right'' \<and> choose_best_move 0 fork = Inr ''right''"
proof -
  have s: "get_safe_moves fork \<noteq> []" by code_simp
  have h: "30 \<le> snake_health (you fork)" by code_simp
  then have n: "\<not> (snake_health (you fork) < 30 \<and> food (game_board fork) \<noteq> [])" by simp
  have ret: "retained fork = [(''left'', 1, 1, 5), (''right'', 3, 1, 7)]" by code_simp
  have run: "choose_best_move 0 fork = Inr ''right''" by code_simp
  from space_priority [OF s n, of 0] s h ret run show ?thesis by auto
qed


end
